theory Spec2Isabelle
  imports Complex_Main "HOL-Library.Multiset"
begin

section \<open>Errors\<close>

text \<open>
  The Python exceptions the modelled functions raise or let through, as values.
  \<open>KeyError\<close> is what a failed dictionary subscript raises (the spec's SessionNotFound for
  the controller), \<open>RuntimeError\<close> is what \<open>add_session\<close> raises for an ID that is taken
  (the spec's DuplicateSessionID), \<open>AssertionError\<close> is the failed \<open>assert\<close> on a generated
  ID (the spec's InvariantViolation). \<open>ExternalError\<close> stands for any exception of a
  collaborator whose code is outside the modelled files (descriptor generator, descriptor
  index), tagged with a number so that different failures stay apart.
\<close>

datatype error = KeyError | RuntimeError | AssertionError | ExternalError nat

section \<open>The session controller (iqr\_controller.py)\<close>

text \<open>
  Session IDs are arbitrary hashable Python values. The model keeps the kinds the code can
  tell apart by truthiness: \<open>None\<close> (the default of the parameter), integers, strings and
  the UUID objects \<open>uuid.uuid1()\<close> returns (a 128-bit number; an object without \<open>__len__\<close>
  or \<open>__nonzero__\<close>, hence always true).
\<close>

datatype session_id = PyNone | PyInt int | PyStr string | PyUUID nat

fun truthy :: "session_id \<Rightarrow> bool" where
  "truthy PyNone = False"
| "truthy (PyInt n) = (n \<noteq> 0)"
| "truthy (PyStr s) = (s \<noteq> [])"
| "truthy (PyUUID u) = True"

text \<open>
  \<open>self._iqr_sessions\<close>, the dictionary from ID to session. The session objects are
  opaque (\<open>'s\<close>). Every method runs inside \<open>with self._map_rlock\<close>; the model is the
  sequential behaviour of one call, so the lock does not appear. Each operation takes the
  registry and returns its result together with the registry after the call, also when it
  raises.
\<close>

type_synonym 's iqr_sessions = "session_id \<rightharpoonup> 's"

definition has_session_uuid :: "'s iqr_sessions \<Rightarrow> session_id \<Rightarrow> bool" where
  "has_session_uuid sessions session_uuid = (sessions session_uuid \<noteq> None)"

text \<open>
  \<open>add_session\<close>: \<open>fresh\<close> is the number of the UUID that \<open>uuid.uuid1()\<close> returns if it is
  called. The first branch is taken by \<open>if not session_uuid\<close>, that is for every false
  value, not only for the default \<open>None\<close>.
\<close>

definition add_session ::
  "'s iqr_sessions \<Rightarrow> 's \<Rightarrow> session_id \<Rightarrow> nat \<Rightarrow> (error + session_id) \<times> 's iqr_sessions" where
  "add_session sessions iqr_session session_uuid fresh =
     (if \<not> truthy session_uuid then
        (let generated = PyUUID fresh in
         if has_session_uuid sessions generated then (Inl AssertionError, sessions)
         else (Inr generated, sessions(generated \<mapsto> iqr_session)))
      else if has_session_uuid sessions session_uuid then (Inl RuntimeError, sessions)
      else (Inr session_uuid, sessions(session_uuid \<mapsto> iqr_session)))"

definition get_session ::
  "'s iqr_sessions \<Rightarrow> session_id \<Rightarrow> (error + 's) \<times> 's iqr_sessions" where
  "get_session sessions session_uuid =
     (case sessions session_uuid of
        None \<Rightarrow> (Inl KeyError, sessions)
      | Some s \<Rightarrow> (Inr s, sessions))"

text \<open>
  \<open>remove_session\<close>: the subscript in \<open>with self._iqr_sessions[session_uuid]\<close> raises
  \<open>KeyError\<close> before anything else happens. Otherwise the \<open>with\<close> statement enters the
  session (its \<open>__enter__\<close>, which takes the session's own lock), the body deletes the
  binding, and the statement leaves the session (its \<open>__exit__\<close>). \<open>IqrSession\<close> is not
  among the files: \<open>enter_session\<close> and \<open>exit_session\<close> say, for a session, whether the
  call raises and what. An exception on entering is raised before the body runs, so the
  binding is kept; an exception on leaving is raised after the deletion.
\<close>

definition remove_session ::
  "('s \<Rightarrow> error option) \<Rightarrow> ('s \<Rightarrow> error option) \<Rightarrow> 's iqr_sessions \<Rightarrow> session_id
     \<Rightarrow> (error + unit) \<times> 's iqr_sessions" where
  "remove_session enter_session exit_session sessions session_uuid =
     (case sessions session_uuid of
        None \<Rightarrow> (Inl KeyError, sessions)
      | Some s \<Rightarrow>
          (case enter_session s of
             Some err \<Rightarrow> (Inl err, sessions)
           | None \<Rightarrow>
               (let deleted = sessions(session_uuid := None)
                in case exit_session s of
                     Some err \<Rightarrow> (Inl err, deleted)
                   | None \<Rightarrow> (Inr (), deleted))))"

text \<open>
  Sessions for the examples are strings; the session \<open>''broken''\<close> cannot be entered
  and the session \<open>''stuck''\<close> cannot be left.
\<close>

definition example_enter :: "string \<Rightarrow> error option" where
  "example_enter s = (if s = ''broken'' then Some (ExternalError 1) else None)"

definition example_exit :: "string \<Rightarrow> error option" where
  "example_exit s = (if s = ''stuck'' then Some (ExternalError 2) else None)"

section \<open>The batch orchestrator (compute\_functions.py, compute\_many\_descriptors)\<close>

text \<open>
  What the function is given, besides the input elements, the index and the batch size:
  \<^item> \<open>filepath\<close> reads an element's \<open>_filepath\<close> attribute, the identifier that is yielded;
  \<^item> \<open>dict_key\<close> is the identity under which an element is a dictionary key (its
    \<open>__hash__\<close>/\<open>__eq__\<close>): two content-identical elements have one key and may differ in
    their file paths;
  \<^item> \<open>compute_descriptor_async\<close> is the descriptor generator's method, with the factory,
    \<open>overwrite\<close>, \<open>procs\<close> and the keyword arguments already passed. It returns a
    dictionary from element to descriptor, here the list of its entries in the order
    \<open>itervalues\<close> walks them, or raises;
  \<^item> \<open>consumed\<close> says how many elements the generator draws from a one-shot iterator over
    the given elements before it returns: in the unbatched branch the elements reach
    \<open>dfe_deque\<close> only as the generator pulls them through \<open>iter_capture_elements\<close>;
  \<^item> \<open>add_many_descriptors\<close> is the index's method: the index after the insertion, or an
    exception.
  Log messages and the two counters kept only for them (\<open>total\<close>, \<open>unique\<close>) are left out.
\<close>

record ('e, 'p, 'k, 'd, 'x) descr_env =
  filepath :: "'e \<Rightarrow> 'p"
  dict_key :: "'e \<Rightarrow> 'k"
  compute_descriptor_async :: "'e list \<Rightarrow> error + ('k \<times> 'd) list"
  consumed :: "'e list \<Rightarrow> nat"
  add_many_descriptors :: "'x \<Rightarrow> 'd list \<Rightarrow> error + 'x"

text \<open>
  The function is a generator. Its outcome, when the caller reads it to the end: the pairs
  yielded, in emission order; the arguments of the successive calls of
  \<open>compute_descriptor_async\<close>; the index after the last insertion; and the exception that
  ended the run, if one did. Pairs yielded before an exception stay yielded.
\<close>

record ('e, 'p, 'd, 'x) outcome =
  yielded :: "('p \<times> 'd) list"
  calls :: "'e list list"
  descr_index :: 'x
  raised :: "error option"

text \<open>
  The loop \<open>for e in dfe_deque: yield e._filepath, m[e]\<close>: a missing key raises \<open>KeyError\<close>
  after the pairs before it have been yielded.
\<close>

fun yield_pairs ::
  "('e, 'p, 'k, 'd, 'x) descr_env \<Rightarrow> ('k \<times> 'd) list \<Rightarrow> 'e list
     \<Rightarrow> ('p \<times> 'd) list \<times> error option" where
  "yield_pairs env m [] = ([], None)"
| "yield_pairs env m (e # es) =
     (case map_of m (dict_key env e) of
        None \<Rightarrow> ([], Some KeyError)
      | Some d \<Rightarrow> (case yield_pairs env m es of (ys, r) \<Rightarrow> ((filepath env e, d) # ys, r)))"

text \<open>
  The three steps the source writes out in each of its three places: call the generator
  on \<open>arg\<close>, add the values of the returned dictionary to the index, yield a pair for each
  element of the deque \<open>dq\<close>.
\<close>

definition one_call ::
  "('e, 'p, 'k, 'd, 'x) descr_env \<Rightarrow> 'x \<Rightarrow> 'e list \<Rightarrow> 'e list \<Rightarrow> ('e, 'p, 'd, 'x) outcome" where
  "one_call env idx arg dq =
     (case compute_descriptor_async env arg of
        Inl err \<Rightarrow> \<lparr>yielded = [], calls = [arg], descr_index = idx, raised = Some err\<rparr>
      | Inr m \<Rightarrow>
          (case add_many_descriptors env idx (map snd m) of
             Inl err \<Rightarrow> \<lparr>yielded = [], calls = [arg], descr_index = idx, raised = Some err\<rparr>
           | Inr idx' \<Rightarrow>
               (case yield_pairs env m dq of
                  (ys, r) \<Rightarrow> \<lparr>yielded = ys, calls = [arg], descr_index = idx', raised = r\<rparr>)))"

text \<open>
  The branch \<open>if batch_size:\<close>. The \<open>for\<close> loop appends each element to \<open>dfe_deque\<close> and
  computes a batch when \<open>len(dfe_deque) == batch_size\<close>, clearing the deque afterwards;
  after the loop a non-empty deque is computed as the final batch.
\<close>

fun batched ::
  "('e, 'p, 'k, 'd, 'x) descr_env \<Rightarrow> int \<Rightarrow> 'x \<Rightarrow> 'e list \<Rightarrow> 'e list
     \<Rightarrow> ('e, 'p, 'd, 'x) outcome" where
  "batched env batch_size idx dfe_deque [] =
     (if length dfe_deque \<noteq> 0 then one_call env idx dfe_deque dfe_deque
      else \<lparr>yielded = [], calls = [], descr_index = idx, raised = None\<rparr>)"
| "batched env batch_size idx dfe_deque (dfe # rest) =
     (let dq = dfe_deque @ [dfe] in
      if int (length dq) = batch_size then
        (let b = one_call env idx dq dq in
         if raised b \<noteq> None then b
         else (let r = batched env batch_size (descr_index b) [] rest
               in r\<lparr>yielded := yielded b @ yielded r, calls := calls b @ calls r\<rparr>))
      else batched env batch_size idx dq rest)"

text \<open>
  The \<open>else\<close> branch: one call on the iterator over all elements; the deque holds what the
  generator has pulled.
\<close>

definition unbatched ::
  "('e, 'p, 'k, 'd, 'x) descr_env \<Rightarrow> 'x \<Rightarrow> 'e list \<Rightarrow> ('e, 'p, 'd, 'x) outcome" where
  "unbatched env idx file_elements =
     one_call env idx file_elements (take (consumed env file_elements) file_elements)"

text \<open>\<open>if batch_size:\<close> is false for \<open>None\<close> and for \<open>0\<close>.\<close>

definition compute_many_descriptors ::
  "('e, 'p, 'k, 'd, 'x) descr_env \<Rightarrow> 'e list \<Rightarrow> 'x \<Rightarrow> int option
     \<Rightarrow> ('e, 'p, 'd, 'x) outcome" where
  "compute_many_descriptors env file_elements idx batch_size =
     (case batch_size of
        None \<Rightarrow> unbatched env idx file_elements
      | Some n \<Rightarrow>
          if n \<noteq> 0 then batched env n idx [] file_elements
          else unbatched env idx file_elements)"

subsection \<open>The contract of the collaborators, and the spec's batches\<close>

text \<open>
  The runs the claims speak of are those in which the collaborators keep their contract:
  the generator does not raise, reads the whole of what it is given, and returns a
  dictionary that has every submitted element as a key; the index accepts what is added.
\<close>

definition generator_total :: "('e, 'p, 'k, 'd, 'x) descr_env \<Rightarrow> bool" where
  "generator_total env =
     (\<forall>xs. case compute_descriptor_async env xs of
             Inl err \<Rightarrow> False
           | Inr m \<Rightarrow> length xs \<le> consumed env xs
                      \<and> (\<forall>x \<in> set xs. map_of m (dict_key env x) \<noteq> None))"

definition index_accepts :: "('e, 'p, 'k, 'd, 'x) descr_env \<Rightarrow> bool" where
  "index_accepts env = (\<forall>idx ds. \<exists>idx'. add_many_descriptors env idx ds = Inr idx')"

text \<open>
  \<open>m[e]\<close> for the dictionary the generator returns on the batch \<open>b\<close>, as an option.
\<close>

definition descriptor_for ::
  "('e, 'p, 'k, 'd, 'x) descr_env \<Rightarrow> 'e list \<Rightarrow> 'e \<Rightarrow> 'd option" where
  "descriptor_for env b e =
     (case compute_descriptor_async env b of
        Inl err \<Rightarrow> None
      | Inr m \<Rightarrow> map_of m (dict_key env e))"

definition expected_pairs ::
  "('e, 'p, 'k, 'd, 'x) descr_env \<Rightarrow> 'e list \<Rightarrow> ('p \<times> 'd option) list" where
  "expected_pairs env b = map (\<lambda>e. (filepath env e, descriptor_for env b e)) b"

text \<open>
  The batches in the spec's words: consecutive groups of \<open>n\<close> items, and the non-empty
  remainder as the last one.
\<close>

function consecutive_groups :: "nat \<Rightarrow> 'a list \<Rightarrow> 'a list list" where
  "consecutive_groups n xs =
     (if n = 0 \<or> xs = [] then [] else take n xs # consecutive_groups n (drop n xs))"
  by pat_completeness auto
termination
  by (relation "measure (\<lambda>(n, xs). length xs)") auto

declare consecutive_groups.simps [simp del]

text \<open>
  A concrete set of collaborators for the examples. An element is a pair of its file path
  and a number standing for its content, which is its dictionary key. The generator
  computes ten times the content number, keeps one entry per distinct content and returns
  the entries in the reverse of the input order. The index is the list of descriptors
  added so far.
\<close>

definition example_env :: "(string \<times> nat, string, nat, nat, nat list) descr_env" where
  "example_env =
     \<lparr>filepath = fst,
      dict_key = snd,
      compute_descriptor_async = (\<lambda>xs. Inr (rev (remdups (map (\<lambda>e. (snd e, 10 * snd e)) xs)))),
      consumed = length,
      add_many_descriptors = (\<lambda>idx ds. Inr (idx @ ds))\<rparr>"

section \<open>The hash indexer (compute\_functions.py, compute\_hash\_codes)\<close>

text \<open>
  The inverted index \<open>hash2uuids\<close> is a dictionary from hash code (a Python integer) to a
  set of identifiers. The caller may pass a dictionary object, which is then updated in
  place, so dictionaries live in a store: a list of dictionaries, an object's address
  being its position. The sets are kept as values.
\<close>

type_synonym 'u hash2uuids = "int \<rightharpoonup> 'u set"

type_synonym 'u store = "'u hash2uuids list"

text \<open>
  Modelled from the spec: \<open>bit_utils.bit_vector_to_int_large\<close> is not among the files.
  The spec asks for a non-negative integer read from the bit vector most-significant bit
  first.
\<close>

definition bit_vector_to_int_large :: "bool list \<Rightarrow> int" where
  "bit_vector_to_int_large bits = foldl (\<lambda>acc b. 2 * acc + (if b then 1 else 0)) 0 bits"

text \<open>
  The local function \<open>get_hash\<close>. \<open>index\<close> is \<open>index.get_descriptor(u).vector()\<close>, which
  may raise; \<open>functor\<close> is \<open>functor.get_hash\<close>.
\<close>

definition get_hash ::
  "('u \<Rightarrow> error + 'v) \<Rightarrow> ('v \<Rightarrow> bool list) \<Rightarrow> 'u \<Rightarrow> error + 'u \<times> int" where
  "get_hash index functor u =
     (case index u of
        Inl err \<Rightarrow> Inl err
      | Inr v \<Rightarrow> Inr (u, bit_vector_to_int_large (functor v)))"

text \<open>
  \<open>report_state = [0] * 7\<close> is a list used as a structure of seven numbers, which
  \<open>bin_utils.report_progress\<close> updates in place.
\<close>

record report_state =
  s0 :: real
  s1 :: real
  s2 :: real
  s3 :: real
  s4 :: real
  s5 :: real
  s6 :: real

text \<open>
  What the function is given besides its arguments:
  \<^item> \<open>parallel_map\<close> (\<open>smqtk.utils.parallel\<close>, not among the files) applied to the work
    function, the identifiers and \<open>use_multiprocessing\<close>, with \<open>ordered=False\<close>: the
    results in the order in which the loop receives them; a task that raised appears as
    its exception, which ends the loop;
  \<^item> \<open>log_level\<close> is \<open>log.getEffectiveLevel()\<close>;
  \<^item> \<open>bin_report_progress\<close> is \<open>bin_utils.report_progress\<close> (not among the files) called
    with \<open>log.debug\<close>: from the world outside (clock, log output), the report state and
    the interval to the world and the report state afterwards.
\<close>

record ('u, 'c) hash_env =
  parallel_map :: "('u \<Rightarrow> error + 'u \<times> int) \<Rightarrow> 'u list \<Rightarrow> bool \<Rightarrow> (error + 'u \<times> int) list"
  log_level :: int
  bin_report_progress :: "'c \<Rightarrow> report_state \<Rightarrow> real \<Rightarrow> 'c \<times> report_state"

definition DEBUG :: int where
  "DEBUG = 10"

text \<open>
  The name \<open>report_progress\<close> is bound either to the local function that does nothing or
  to \<open>bin_utils.report_progress\<close>.
\<close>

datatype reporter = No_Op | Bin_Utils

text \<open>
  The reporting side of a run: the report state, the world outside, and the calls of
  \<open>bin_utils.report_progress\<close> made so far, each with the state and the interval passed.
\<close>

record 'c reporting =
  state :: report_state
  outside :: 'c
  progress_calls :: "(report_state \<times> real) list"

definition report_progress ::
  "('u, 'c) hash_env \<Rightarrow> reporter \<Rightarrow> 'c reporting \<Rightarrow> real \<Rightarrow> 'c reporting" where
  "report_progress env rp r interval =
     (case rp of
        No_Op \<Rightarrow> r
      | Bin_Utils \<Rightarrow>
          (case bin_report_progress env (outside r) (state r) interval of
             (c, st) \<Rightarrow>
               \<lparr>state = st, outside = c,
                progress_calls = progress_calls r @ [(state r, interval)]\<rparr>))"

text \<open>
  The two statements of the loop body that update the dictionary: create the set if the
  hash code is not a key, then add the identifier to the set under the hash code.
\<close>

definition add_uuid :: "'u hash2uuids \<Rightarrow> int \<Rightarrow> 'u \<Rightarrow> error + 'u hash2uuids" where
  "add_uuid h hash_int uuid =
     (let h1 = (if h hash_int = None then h(hash_int \<mapsto> {}) else h)
      in case h1 hash_int of
           None \<Rightarrow> Inl KeyError
         | Some members \<Rightarrow> Inr (h1(hash_int \<mapsto> insert uuid members)))"

text \<open>
  The \<open>for\<close> loop over the results of \<open>parallel_map\<close>: the exception that ended it, if
  any, the dictionary and the reporting side at that point.
\<close>

fun accumulate ::
  "('u, 'c) hash_env \<Rightarrow> reporter \<Rightarrow> real \<Rightarrow> (error + 'u \<times> int) list
     \<Rightarrow> 'u hash2uuids \<Rightarrow> 'c reporting \<Rightarrow> error option \<times> 'u hash2uuids \<times> 'c reporting" where
  "accumulate env rp interval [] h r = (None, h, r)"
| "accumulate env rp interval (Inl err # results) h r = (Some err, h, r)"
| "accumulate env rp interval (Inr (uuid, hash_int) # results) h r =
     (case add_uuid h hash_int uuid of
        Inl err \<Rightarrow> (Some err, h, r)
      | Inr h' \<Rightarrow> accumulate env rp interval results h' (report_progress env rp r interval))"

text \<open>
  The argument \<open>hash2uuids\<close> is \<open>None\<close> or the address of a dictionary in the store; for
  \<open>None\<close> a new dictionary is allocated at the end of the store.
\<close>

definition target_address :: "'u store \<Rightarrow> nat option \<Rightarrow> nat" where
  "target_address store hash2uuids =
     (case hash2uuids of None \<Rightarrow> length store | Some a \<Rightarrow> a)"

definition allocate :: "'u store \<Rightarrow> nat option \<Rightarrow> 'u store" where
  "allocate store hash2uuids =
     (case hash2uuids of None \<Rightarrow> store @ [Map.empty] | Some a \<Rightarrow> store)"

text \<open>
  The outcome of a run: the address of the dictionary returned, or the exception; the
  store; the reporting side.
\<close>

record ('u, 'c) hash_run =
  returned :: "error + nat"
  store_after :: "'u store"
  reporting :: "'c reporting"

definition compute_hash_codes ::
  "('u, 'c) hash_env \<Rightarrow> 'u store \<Rightarrow> 'c \<Rightarrow> 'u list \<Rightarrow> ('u \<Rightarrow> error + 'v) \<Rightarrow> ('v \<Rightarrow> bool list)
     \<Rightarrow> nat option \<Rightarrow> real \<Rightarrow> bool \<Rightarrow> ('u, 'c) hash_run" where
  "compute_hash_codes env store world uuids index functor hash2uuids report_interval use_mp =
     (let a = target_address store hash2uuids;
          store1 = allocate store hash2uuids;
          r0 = \<lparr>state = \<lparr>s0 = 0, s1 = 0, s2 = 0, s3 = 0, s4 = 0, s5 = 0, s6 = 0\<rparr>,
                outside = world, progress_calls = []\<rparr>;
          rp = (if log_level env > DEBUG \<or> report_interval \<le> 0 then No_Op else Bin_Utils)
      in case accumulate env rp report_interval
                (parallel_map env (get_hash index functor) uuids use_mp) (store1 ! a) r0 of
           (Some err, h, r) \<Rightarrow>
             \<lparr>returned = Inl err, store_after = store1[a := h], reporting = r\<rparr>
         | (None, h, r) \<Rightarrow>
             (let r1 = r\<lparr>state := (state r)\<lparr>s1 := s1 (state r) - 1\<rparr>\<rparr>
              in \<lparr>returned = Inr a, store_after = store1[a := h],
                  reporting = report_progress env rp r1 0\<rparr>))"

subsection \<open>The contract of the collaborators of the hash indexer\<close>

text \<open>
  \<open>parallel_map\<close> with \<open>ordered=False\<close> delivers the results of the work function on the
  given identifiers, each once, in some order.
\<close>

definition delivers_each_once ::
  "('u, 'c) hash_env \<Rightarrow> ('u \<Rightarrow> error + 'u \<times> int) \<Rightarrow> 'u list \<Rightarrow> bool \<Rightarrow> bool" where
  "delivers_each_once env f uuids use_mp =
     (mset (parallel_map env f uuids use_mp) = mset (map f uuids))"

text \<open>Every identifier has a descriptor in the index.\<close>

definition all_indexed :: "('u \<Rightarrow> error + 'v) \<Rightarrow> 'u list \<Rightarrow> bool" where
  "all_indexed index uuids = list_all (\<lambda>u. case index u of Inl err \<Rightarrow> False | Inr v \<Rightarrow> True) uuids"

text \<open>The dictionary passed, if one is, is an object of the store.\<close>

definition valid_argument :: "'u store \<Rightarrow> nat option \<Rightarrow> bool" where
  "valid_argument store hash2uuids =
     (case hash2uuids of None \<Rightarrow> True | Some a \<Rightarrow> a < length store)"

text \<open>The hash code of an identifier, when its descriptor is found.\<close>

definition hash_code :: "('u \<Rightarrow> error + 'v) \<Rightarrow> ('v \<Rightarrow> bool list) \<Rightarrow> 'u \<Rightarrow> int option" where
  "hash_code index functor u =
     (case get_hash index functor u of Inl err \<Rightarrow> None | Inr (u', k) \<Rightarrow> Some k)"

text \<open>
  The inverted index in the spec's words: the dictionary \<open>h\<close> with every identifier of
  the pairs \<open>P\<close> inserted into the set under its hash code, a hash code that was no key
  getting a set of its own.
\<close>

definition members :: "'u hash2uuids \<Rightarrow> int \<Rightarrow> 'u set" where
  "members h k = (case h k of None \<Rightarrow> {} | Some s \<Rightarrow> s)"

definition extended :: "'u hash2uuids \<Rightarrow> ('u \<times> int) set \<Rightarrow> 'u hash2uuids" where
  "extended h P =
     (\<lambda>k. if k \<in> snd ` P then Some ({u. (u, k) \<in> P} \<union> members h k) else h k)"

text \<open>
  Collaborators for the examples: \<open>parallel_map\<close> delivers in input order without
  multiprocessing and in reverse order with it; the reporter counts its calls in the
  world outside and in the second cell of the state.
\<close>

definition example_hash_env :: "int \<Rightarrow> (nat, nat) hash_env" where
  "example_hash_env level =
     \<lparr>parallel_map = (\<lambda>f xs mp. if mp then rev (map f xs) else map f xs),
      log_level = level,
      bin_report_progress = (\<lambda>c st interval. (c + 1, st\<lparr>s1 := s1 st + 1\<rparr>))\<rparr>"

definition example_index :: "nat \<Rightarrow> error + bool list" where
  "example_index u = (if u < 10 then Inr [odd u] else Inl KeyError)"

section \<open>Properties of the session controller\<close>

text \<open>
  C8, as amended. For every registry and every caller-supplied ID that is true in Python's
  sense: if the ID is registered, \<open>add_session\<close> raises \<open>RuntimeError\<close> and the registry is
  unchanged; if it is not registered, the call returns that ID and the registry is the old
  one with the session bound to it.
\<close>

theorem add_session_supplied:
  assumes "truthy session_uuid"
  shows "(sessions session_uuid \<noteq> None \<longrightarrow>
            add_session sessions s session_uuid fresh = (Inl RuntimeError, sessions))
       \<and> (sessions session_uuid = None \<longrightarrow>
            add_session sessions s session_uuid fresh
              = (Inr session_uuid, sessions(session_uuid \<mapsto> s)))"
  using assms by (simp add: add_session_def has_session_uuid_def)

theorem add_session_supplied_witness:
  "truthy (PyStr ''a'')
   \<and> add_session [PyStr ''a'' \<mapsto> (1::nat)] 2 (PyStr ''a'') 7
       = (Inl RuntimeError, [PyStr ''a'' \<mapsto> 1])
   \<and> add_session [PyStr ''a'' \<mapsto> (1::nat)] 2 (PyStr ''b'') 7
       = (Inr (PyStr ''b''), [PyStr ''a'' \<mapsto> 1, PyStr ''b'' \<mapsto> 2])"
  using add_session_supplied [of "PyStr ''a''" "[PyStr ''a'' \<mapsto> (1::nat)]" 2 7]
        add_session_supplied [of "PyStr ''b''" "[PyStr ''a'' \<mapsto> (1::nat)]" 2 7]
  by simp

text \<open>
  C8 as stated fails for a supplied ID that is false: on the empty registry, the call with
  the unregistered ID \<open>0\<close> succeeds, returns the generated UUID, and leaves \<open>0\<close>
  unregistered.
\<close>

theorem add_session_falsy_counterexample:
  "fst (add_session Map.empty (1::nat) (PyInt 0) 7) = Inr (PyUUID 7)
   \<and> snd (add_session Map.empty (1::nat) (PyInt 0) 7) (PyInt 0) = None"
  by (simp add: add_session_def has_session_uuid_def Let_def)

text \<open>
  C9. For an ID that is not registered, \<open>get_session\<close> and \<open>remove_session\<close> raise
  \<open>KeyError\<close> and the registry is unchanged. For a registered ID, \<open>get_session\<close> returns the
  bound session and the registry is unchanged; and \<open>remove_session\<close>, when the session can
  be entered and left without an exception, succeeds with a registry that has lost this
  binding and agrees with the old one on every other ID. When entering the session
  raises, \<open>remove_session\<close> raises that exception and the registry is unchanged; when
  leaving it raises, \<open>remove_session\<close> raises that exception after the binding, and only
  it, has been deleted.
\<close>

theorem get_remove_session:
  "(sessions session_uuid = None \<longrightarrow>
      get_session sessions session_uuid = (Inl KeyError, sessions)
    \<and> remove_session enter_session exit_session sessions session_uuid
        = (Inl KeyError, sessions))
 \<and> (sessions session_uuid = Some s \<longrightarrow>
      get_session sessions session_uuid = (Inr s, sessions)
    \<and> (enter_session s = None \<and> exit_session s = None \<longrightarrow>
          fst (remove_session enter_session exit_session sessions session_uuid) = Inr ()
        \<and> snd (remove_session enter_session exit_session sessions session_uuid) session_uuid
            = None
        \<and> (\<forall>other. other \<noteq> session_uuid \<longrightarrow>
              snd (remove_session enter_session exit_session sessions session_uuid) other
                = sessions other))
    \<and> (\<forall>err. enter_session s = Some err \<longrightarrow>
          remove_session enter_session exit_session sessions session_uuid
            = (Inl err, sessions))
    \<and> (\<forall>err. enter_session s = None \<and> exit_session s = Some err \<longrightarrow>
          remove_session enter_session exit_session sessions session_uuid
            = (Inl err, sessions(session_uuid := None))))"
  by (simp add: get_session_def remove_session_def Let_def)

text \<open>
  A registry of two sessions: an unregistered ID, a registered one whose session can be
  entered and left, and one whose session cannot be entered. Then a registry whose one
  session cannot be left.
\<close>

theorem get_remove_session_witness:
  "get_session [PyInt 1 \<mapsto> ''broken'', PyInt 2 \<mapsto> ''y''] (PyInt 3)
     = (Inl KeyError, [PyInt 1 \<mapsto> ''broken'', PyInt 2 \<mapsto> ''y''])
   \<and> remove_session example_enter example_exit
        [PyInt 1 \<mapsto> ''broken'', PyInt 2 \<mapsto> ''y''] (PyInt 3)
     = (Inl KeyError, [PyInt 1 \<mapsto> ''broken'', PyInt 2 \<mapsto> ''y''])
   \<and> get_session [PyInt 1 \<mapsto> ''broken'', PyInt 2 \<mapsto> ''y''] (PyInt 2)
     = (Inr ''y'', [PyInt 1 \<mapsto> ''broken'', PyInt 2 \<mapsto> ''y''])
   \<and> example_enter ''y'' = None \<and> example_exit ''y'' = None
   \<and> fst (remove_session example_enter example_exit
        [PyInt 1 \<mapsto> ''broken'', PyInt 2 \<mapsto> ''y''] (PyInt 2)) = Inr ()
   \<and> snd (remove_session example_enter example_exit
        [PyInt 1 \<mapsto> ''broken'', PyInt 2 \<mapsto> ''y''] (PyInt 2)) (PyInt 2) = None
   \<and> snd (remove_session example_enter example_exit
        [PyInt 1 \<mapsto> ''broken'', PyInt 2 \<mapsto> ''y''] (PyInt 2)) (PyInt 1) = Some ''broken''
   \<and> example_enter ''broken'' = Some (ExternalError 1)
   \<and> remove_session example_enter example_exit
        [PyInt 1 \<mapsto> ''broken'', PyInt 2 \<mapsto> ''y''] (PyInt 1)
     = (Inl (ExternalError 1), [PyInt 1 \<mapsto> ''broken'', PyInt 2 \<mapsto> ''y''])
   \<and> example_enter ''stuck'' = None \<and> example_exit ''stuck'' = Some (ExternalError 2)
   \<and> fst (remove_session example_enter example_exit [PyInt 4 \<mapsto> ''stuck''] (PyInt 4))
     = Inl (ExternalError 2)
   \<and> snd (remove_session example_enter example_exit [PyInt 4 \<mapsto> ''stuck''] (PyInt 4))
        (PyInt 4) = None"
  using get_remove_session [of "[PyInt 1 \<mapsto> ''broken'', PyInt 2 \<mapsto> ''y'']" "PyInt 3"
          example_enter example_exit "''y''"]
        get_remove_session [of "[PyInt 1 \<mapsto> ''broken'', PyInt 2 \<mapsto> ''y'']" "PyInt 2"
          example_enter example_exit "''y''"]
        get_remove_session [of "[PyInt 1 \<mapsto> ''broken'', PyInt 2 \<mapsto> ''y'']" "PyInt 1"
          example_enter example_exit "''broken''"]
        get_remove_session [of "[PyInt 4 \<mapsto> ''stuck'']" "PyInt 4"
          example_enter example_exit "''stuck''"]
  by (simp add: example_enter_def example_exit_def)

text \<open>
  C10. \<open>add_session\<close> tells an omitted ID from a supplied one by truthiness. For every
  supplied ID that is false (\<open>None\<close>, \<open>0\<close>, the empty string): the call never raises the
  duplicate-ID \<open>RuntimeError\<close>, whether or not that ID is registered; when the generated UUID
  is new to the registry, the call returns the generated UUID and binds the session to it;
  and the binding of the supplied ID is whatever it was before. Moreover, for every ID at
  all, a successful call returns a true ID and changes the registry at that ID only, so no
  session is ever registered under a false ID by this operation.
\<close>

theorem add_session_falsy_id:
  "(\<not> truthy session_uuid \<longrightarrow>
      fst (add_session sessions s session_uuid fresh) \<noteq> Inl RuntimeError
    \<and> (sessions (PyUUID fresh) = None \<longrightarrow>
         add_session sessions s session_uuid fresh
           = (Inr (PyUUID fresh), sessions(PyUUID fresh \<mapsto> s)))
    \<and> snd (add_session sessions s session_uuid fresh) session_uuid = sessions session_uuid)
 \<and> (\<forall>used. fst (add_session sessions s session_uuid fresh) = Inr used \<longrightarrow>
      truthy used
    \<and> (\<forall>other. \<not> truthy other \<longrightarrow>
          snd (add_session sessions s session_uuid fresh) other = sessions other))"
proof -
  have not_self: "\<not> truthy session_uuid \<Longrightarrow> session_uuid \<noteq> PyUUID fresh"
    by (cases session_uuid) simp_all
  have falsy_other: "\<And>other. \<not> truthy other \<Longrightarrow> other \<noteq> PyUUID fresh"
  proof -
    fix other show "\<not> truthy other \<Longrightarrow> other \<noteq> PyUUID fresh"
      by (cases other) simp_all
  qed
  show ?thesis
    using not_self falsy_other
    by (auto simp: add_session_def has_session_uuid_def Let_def split: if_splits)
qed

theorem add_session_falsy_id_witness:
  "\<not> truthy (PyInt 0)
   \<and> add_session [PyInt 0 \<mapsto> ''old''] ''new'' (PyInt 0) 7
       = (Inr (PyUUID 7), [PyInt 0 \<mapsto> ''old'', PyUUID 7 \<mapsto> ''new''])
   \<and> fst (add_session [PyInt 0 \<mapsto> ''old''] ''new'' (PyInt 0) 7) \<noteq> Inl RuntimeError
   \<and> snd (add_session [PyInt 0 \<mapsto> ''old''] ''new'' (PyInt 0) 7) (PyInt 0) = Some ''old''
   \<and> snd (add_session [PyInt 0 \<mapsto> ''old''] ''new'' (PyInt 0) 7) (PyStr []) = None"
  using add_session_falsy_id [of "PyInt 0" "[PyInt 0 \<mapsto> ''old'']" "''new''" 7]
  by (simp add: add_session_def has_session_uuid_def)

section \<open>Properties of the batch orchestrator\<close>

lemma consecutive_groups_Nil: "consecutive_groups n [] = []"
  by (simp add: consecutive_groups.simps)

lemma consecutive_groups_short:
  "0 < n \<Longrightarrow> xs \<noteq> [] \<Longrightarrow> length xs \<le> n \<Longrightarrow> consecutive_groups n xs = [xs]"
  by (simp add: consecutive_groups.simps [of n xs] consecutive_groups_Nil)

lemma consecutive_groups_full:
  "0 < n \<Longrightarrow> length xs = n \<Longrightarrow> consecutive_groups n (xs @ ys) = xs # consecutive_groups n ys"
  by (cases "xs = []") (simp_all add: consecutive_groups.simps [of n "xs @ ys"])

lemma concat_consecutive_groups: "0 < n \<Longrightarrow> concat (consecutive_groups n xs) = xs"
proof (induction n xs rule: consecutive_groups.induct)
  case (1 n xs)
  then show ?case
    by (cases "xs = []") (simp_all add: consecutive_groups.simps [of n xs] consecutive_groups_Nil)
qed

lemma yield_pairs_ok:
  assumes "\<forall>x \<in> set dq. map_of m (dict_key env x) \<noteq> None"
  shows "snd (yield_pairs env m dq) = None
       \<and> map (apsnd Some) (fst (yield_pairs env m dq))
           = map (\<lambda>e. (filepath env e, map_of m (dict_key env e))) dq"
  using assms by (induction dq) (auto split: prod.splits)

lemma one_call_ok:
  assumes "generator_total env" "index_accepts env"
  shows "raised (one_call env idx b b) = None
       \<and> calls (one_call env idx b b) = [b]
       \<and> map (apsnd Some) (yielded (one_call env idx b b)) = expected_pairs env b"
proof -
  from assms(1) have "case compute_descriptor_async env b of
             Inl err \<Rightarrow> False
           | Inr m \<Rightarrow> length b \<le> consumed env b
                      \<and> (\<forall>x \<in> set b. map_of m (dict_key env x) \<noteq> None)"
    unfolding generator_total_def by blast
  then obtain m where m: "compute_descriptor_async env b = Inr m"
    and keys: "\<forall>x \<in> set b. map_of m (dict_key env x) \<noteq> None"
    by (cases "compute_descriptor_async env b") auto
  from assms(2) obtain idx' where idx': "add_many_descriptors env idx (map snd m) = Inr idx'"
    unfolding index_accepts_def by blast
  obtain ys r where yp: "yield_pairs env m b = (ys, r)"
    by (cases "yield_pairs env m b")
  from yield_pairs_ok [OF keys] m idx' yp show ?thesis
    by (simp add: one_call_def expected_pairs_def descriptor_for_def)
qed

lemma batched_positive:
  assumes "generator_total env" "index_accepts env" "0 < n"
  shows "length dq < n \<Longrightarrow>
         raised (batched env (int n) idx dq rest) = None
       \<and> calls (batched env (int n) idx dq rest) = consecutive_groups n (dq @ rest)
       \<and> map (apsnd Some) (yielded (batched env (int n) idx dq rest))
           = concat (map (expected_pairs env) (consecutive_groups n (dq @ rest)))"
proof (induction rest arbitrary: dq idx)
  case Nil
  show ?case
  proof (cases "dq = []")
    case True
    then show ?thesis by (simp add: consecutive_groups_Nil)
  next
    case False
    with Nil assms(3) have "consecutive_groups n dq = [dq]"
      by (simp add: consecutive_groups_short)
    with False one_call_ok [OF assms(1,2), of idx dq] show ?thesis by simp
  qed
next
  case (Cons x rest)
  show ?case
  proof (cases "length (dq @ [x]) = n")
    case True
    let ?b = "one_call env idx (dq @ [x]) (dq @ [x])"
    have grp: "consecutive_groups n (dq @ x # rest) = (dq @ [x]) # consecutive_groups n rest"
      using consecutive_groups_full [OF assms(3) True, of rest] by simp
    have ih: "raised (batched env (int n) (descr_index ?b) [] rest) = None
       \<and> calls (batched env (int n) (descr_index ?b) [] rest) = consecutive_groups n rest
       \<and> map (apsnd Some) (yielded (batched env (int n) (descr_index ?b) [] rest))
           = concat (map (expected_pairs env) (consecutive_groups n rest))"
      using Cons.IH [of "[]" "descr_index ?b"] assms(3) by simp
    from True one_call_ok [OF assms(1,2), of idx "dq @ [x]"] ih grp show ?thesis
      by (simp add: Let_def)
  next
    case False
    with Cons.prems have "length (dq @ [x]) < n" by simp
    from Cons.IH [OF this, of idx] False show ?thesis by (simp add: Let_def)
  qed
qed

lemma batched_negative:
  assumes "batch_size < 0"
  shows "batched env batch_size idx dq rest =
         (if dq @ rest = [] then \<lparr>yielded = [], calls = [], descr_index = idx, raised = None\<rparr>
          else one_call env idx (dq @ rest) (dq @ rest))"
  using assms by (induction rest arbitrary: dq) (auto simp: Let_def)


lemma unbatched_ok:
  assumes "generator_total env" "index_accepts env"
  shows "raised (unbatched env idx xs) = None
       \<and> calls (unbatched env idx xs) = [xs]
       \<and> map (apsnd Some) (yielded (unbatched env idx xs)) = expected_pairs env xs"
proof -
  from assms(1) have "case compute_descriptor_async env xs of
             Inl err \<Rightarrow> False
           | Inr m \<Rightarrow> length xs \<le> consumed env xs
                      \<and> (\<forall>x \<in> set xs. map_of m (dict_key env x) \<noteq> None)"
    unfolding generator_total_def by blast
  then have "length xs \<le> consumed env xs"
    by (cases "compute_descriptor_async env xs") auto
  then have "unbatched env idx xs = one_call env idx xs xs"
    by (simp add: unbatched_def)
  with one_call_ok [OF assms, of idx xs] show ?thesis by simp
qed

lemma compute_many_descriptors_ok:
  assumes "generator_total env" "index_accepts env"
  shows "raised (compute_many_descriptors env file_elements idx batch_size) = None
       \<and> concat (calls (compute_many_descriptors env file_elements idx batch_size)) = file_elements
       \<and> map (apsnd Some) (yielded (compute_many_descriptors env file_elements idx batch_size))
           = concat (map (expected_pairs env)
               (calls (compute_many_descriptors env file_elements idx batch_size)))"
proof (cases batch_size)
  case None
  with unbatched_ok [OF assms, of idx file_elements] show ?thesis
    by (simp add: compute_many_descriptors_def)
next
  case (Some n)
  consider "n = 0" | "0 < n" | "n < 0" by linarith
  then show ?thesis
  proof cases
    case 1
    with Some unbatched_ok [OF assms, of idx file_elements] show ?thesis
      by (simp add: compute_many_descriptors_def)
  next
    case 2
    then have n: "int (nat n) = n" "0 < nat n" by simp_all
    from batched_positive [OF assms n(2), of "[]" idx file_elements] Some 2 show ?thesis
      by (simp add: compute_many_descriptors_def concat_consecutive_groups)
  next
    case 3
    show ?thesis
    proof (cases "file_elements = []")
      case True
      with Some 3 show ?thesis
        by (simp add: compute_many_descriptors_def batched_negative)
    next
      case False
      with Some 3 one_call_ok [OF assms, of idx file_elements] show ?thesis
        by (simp add: compute_many_descriptors_def batched_negative)
    qed
  qed
qed

lemma map_fst_expected_pairs: "map fst (expected_pairs env b) = map (filepath env) b"
  by (simp add: expected_pairs_def comp_def)

lemma example_env_total: "generator_total example_env"
  unfolding generator_total_def example_env_def
  by (auto simp: map_of_eq_None_iff image_iff)

lemma example_env_accepts: "index_accepts example_env"
  by (simp add: index_accepts_def example_env_def)

text \<open>
  C1. Order preservation. Whenever the collaborators keep their contract, for every input
  sequence and every batch size (\<open>None\<close>, zero, positive or negative), the run ends
  without an exception and the identifiers yielded, in emission order, are the file paths
  of the input elements in input order. The order of the entries of the dictionaries the
  generator returns plays no part: the generator is arbitrary.
\<close>

theorem order_preservation:
  assumes "generator_total env" "index_accepts env"
  shows "raised (compute_many_descriptors env file_elements idx batch_size) = None
       \<and> map fst (yielded (compute_many_descriptors env file_elements idx batch_size))
           = map (filepath env) file_elements"
proof -
  let ?r = "compute_many_descriptors env file_elements idx batch_size"
  from compute_many_descriptors_ok [OF assms, of file_elements idx batch_size]
  have ok: "raised ?r = None" and whole: "concat (calls ?r) = file_elements"
    and pairs: "map (apsnd Some) (yielded ?r) = concat (map (expected_pairs env) (calls ?r))"
    by simp_all
  have "map fst (yielded ?r) = map fst (map (apsnd Some) (yielded ?r))"
    by (simp add: comp_def)
  also have "\<dots> = concat (map (map (filepath env)) (calls ?r))"
    by (simp only: pairs map_concat map_map comp_def map_fst_expected_pairs)
  also have "\<dots> = map (filepath env) file_elements"
    by (simp only: map_concat [symmetric] whole)
  finally show ?thesis using ok by simp
qed

text \<open>
  Three elements, the first and the last content-identical, with a generator that answers
  in reverse order: batch sizes 1, 2, 3 and \<open>None\<close>.
\<close>

theorem order_preservation_witness:
  "generator_total example_env \<and> index_accepts example_env
   \<and> map fst (yielded (compute_many_descriptors example_env
        [(''b.png'', 2), (''a.png'', 1), (''c.png'', 2)] [] (Some 1))) = [''b.png'', ''a.png'', ''c.png'']
   \<and> map fst (yielded (compute_many_descriptors example_env
        [(''b.png'', 2), (''a.png'', 1), (''c.png'', 2)] [] (Some 2))) = [''b.png'', ''a.png'', ''c.png'']
   \<and> map fst (yielded (compute_many_descriptors example_env
        [(''b.png'', 2), (''a.png'', 1), (''c.png'', 2)] [] (Some 3))) = [''b.png'', ''a.png'', ''c.png'']
   \<and> map fst (yielded (compute_many_descriptors example_env
        [(''b.png'', 2), (''a.png'', 1), (''c.png'', 2)] [] None)) = [''b.png'', ''a.png'', ''c.png'']"
proof -
  have fp: "map (filepath example_env) [(''b.png'', 2), (''a.png'', 1), (''c.png'', 2)]
              = [''b.png'', ''a.png'', ''c.png'']"
    by (simp add: example_env_def)
  note inst = order_preservation [OF example_env_total example_env_accepts,
      of "[(''b.png'', 2), (''a.png'', 1), (''c.png'', 2)]" "[]"]
  from inst [of "Some 1"] inst [of "Some 2"] inst [of "Some 3"] inst [of None]
  show ?thesis
    unfolding fp using example_env_total example_env_accepts by simp
qed

text \<open>
  C2. Completeness. An empty input yields nothing, whatever the collaborators do. Whenever
  the collaborators keep their contract, the run yields as many pairs as there are input
  elements; the batches submitted to the generator, put end to end, are the input; and the
  pairs yielded are, batch after batch and element after element, the element's file path
  with the value found under the element's key in the dictionary returned for its batch.
  An element whose key it shares with another one of its batch thus yields a pair of its
  own.
\<close>

theorem one_pair_per_item:
  "yielded (compute_many_descriptors env [] idx batch_size) = []
   \<and> (generator_total env \<and> index_accepts env \<longrightarrow>
        length (yielded (compute_many_descriptors env file_elements idx batch_size))
          = length file_elements
      \<and> concat (calls (compute_many_descriptors env file_elements idx batch_size))
          = file_elements
      \<and> map (apsnd Some) (yielded (compute_many_descriptors env file_elements idx batch_size))
          = concat (map (expected_pairs env)
              (calls (compute_many_descriptors env file_elements idx batch_size))))"
proof -
  have empty_input: "yielded (compute_many_descriptors env [] idx batch_size) = []"
    by (auto simp: compute_many_descriptors_def unbatched_def one_call_def
             split: option.splits sum.splits)
  have len: "length (yielded (compute_many_descriptors env file_elements idx batch_size))
          = length file_elements"
    if c: "generator_total env" "index_accepts env"
  proof -
    let ?r = "compute_many_descriptors env file_elements idx batch_size"
    from compute_many_descriptors_ok [OF c, of file_elements idx batch_size]
    have whole: "concat (calls ?r) = file_elements"
      and pairs: "map (apsnd Some) (yielded ?r) = concat (map (expected_pairs env) (calls ?r))"
      by simp_all
    have "length (yielded ?r) = length (map (apsnd Some) (yielded ?r))" by simp
    also have "\<dots> = length (concat (map (map (filepath env)) (calls ?r)))"
      by (simp only: pairs length_concat map_map comp_def expected_pairs_def length_map)
    also have "\<dots> = length file_elements"
      by (simp only: map_concat [symmetric] whole length_map)
    finally show ?thesis .
  qed
  show ?thesis
  proof (intro conjI impI)
    show "yielded (compute_many_descriptors env [] idx batch_size) = []"
      by (rule empty_input)
  next
    assume "generator_total env \<and> index_accepts env"
    then show "length (yielded (compute_many_descriptors env file_elements idx batch_size))
          = length file_elements"
      using len by simp
  next
    assume "generator_total env \<and> index_accepts env"
    then show "concat (calls (compute_many_descriptors env file_elements idx batch_size))
          = file_elements"
      using compute_many_descriptors_ok [of env file_elements idx batch_size] by simp
  next
    assume "generator_total env \<and> index_accepts env"
    then show "map (apsnd Some) (yielded (compute_many_descriptors env file_elements idx batch_size))
          = concat (map (expected_pairs env)
              (calls (compute_many_descriptors env file_elements idx batch_size)))"
      using compute_many_descriptors_ok [of env file_elements idx batch_size] by simp
  qed
qed

text \<open>
  Two content-identical elements and a third one: the generator returns two entries, the
  run yields three pairs.
\<close>

theorem one_pair_per_item_witness:
  "generator_total example_env \<and> index_accepts example_env
   \<and> yielded (compute_many_descriptors example_env [(''x'', 5), (''y'', 5), (''z'', 6)] [] None)
       = [(''x'', 50), (''y'', 50), (''z'', 60)]
   \<and> calls (compute_many_descriptors example_env [(''x'', 5), (''y'', 5), (''z'', 6)] [] None)
       = [[(''x'', 5), (''y'', 5), (''z'', 6)]]
   \<and> compute_descriptor_async example_env [(''x'', 5), (''y'', 5), (''z'', 6)]
       = Inr [(6, 60), (5, 50)]
   \<and> length (yielded (compute_many_descriptors example_env
        [(''x'', 5), (''y'', 5), (''z'', 6)] [] None)) = 3"
  using one_pair_per_item [of example_env "[]" None "[(''x'', 5), (''y'', 5), (''z'', 6)]"]
        example_env_total example_env_accepts
  by (simp add: compute_many_descriptors_def unbatched_def one_call_def example_env_def)

text \<open>
  C3. Batches. For a positive batch size \<open>n\<close>, whenever the collaborators keep their
  contract, the generator is called exactly on the consecutive groups of \<open>n\<close> input
  elements and, last, on the non-empty remainder; the run ends without an exception; and
  the pairs yielded are, group after group in this order, each element's file path with
  the value found under the element's key in the dictionary that the generator returns
  when applied to that group.
\<close>

theorem batches_of_batch_size:
  assumes "generator_total env" "index_accepts env" "0 < n"
  shows "calls (compute_many_descriptors env file_elements idx (Some n))
           = consecutive_groups (nat n) file_elements
       \<and> raised (compute_many_descriptors env file_elements idx (Some n)) = None
       \<and> map (apsnd Some) (yielded (compute_many_descriptors env file_elements idx (Some n)))
           = concat (map (expected_pairs env) (consecutive_groups (nat n) file_elements))"
proof -
  from assms(3) have n: "int (nat n) = n" "0 < nat n" by simp_all
  from batched_positive [OF assms(1,2) n(2), of "[]" idx file_elements] assms(3) show ?thesis
    by (simp add: compute_many_descriptors_def)
qed

text \<open>Five elements, batch size 2: batches of sizes 2, 2 and 1, in this order.\<close>

theorem batches_of_batch_size_witness:
  "generator_total example_env \<and> index_accepts example_env \<and> (0::int) < 2
   \<and> calls (compute_many_descriptors example_env
        [(''a'', 1), (''b'', 2), (''c'', 3), (''d'', 4), (''e'', 5)] [] (Some 2))
       = [[(''a'', 1), (''b'', 2)], [(''c'', 3), (''d'', 4)], [(''e'', 5)]]
   \<and> map length (calls (compute_many_descriptors example_env
        [(''a'', 1), (''b'', 2), (''c'', 3), (''d'', 4), (''e'', 5)] [] (Some 2))) = [2, 2, 1]
   \<and> raised (compute_many_descriptors example_env
        [(''a'', 1), (''b'', 2), (''c'', 3), (''d'', 4), (''e'', 5)] [] (Some 2)) = None
   \<and> map (apsnd Some) (yielded (compute_many_descriptors example_env
        [(''a'', 1), (''b'', 2), (''c'', 3), (''d'', 4), (''e'', 5)] [] (Some 2)))
       = [(''a'', Some 10), (''b'', Some 20), (''c'', Some 30), (''d'', Some 40),
          (''e'', Some 50)]"
proof -
  have groups: "consecutive_groups (nat 2) [(''a'', 1::nat), (''b'', 2), (''c'', 3), (''d'', 4), (''e'', 5)]
      = [[(''a'', 1), (''b'', 2)], [(''c'', 3), (''d'', 4)], [(''e'', 5)]]"
    by (simp add: consecutive_groups.simps)
  from batches_of_batch_size [OF example_env_total example_env_accepts, of 2
      "[(''a'', 1), (''b'', 2), (''c'', 3), (''d'', 4), (''e'', 5)]" "[]"]
  show ?thesis
    unfolding groups using example_env_total example_env_accepts
    by (simp add: expected_pairs_def descriptor_for_def example_env_def)
qed

section \<open>Properties of the hash indexer\<close>

lemma add_uuid_eq: "add_uuid h k u = Inr (h(k \<mapsto> insert u (members h k)))"
  by (auto simp: add_uuid_def members_def Let_def split: option.splits)

lemma extended_empty: "extended h {} = h"
  by (simp add: extended_def)

lemma extended_insert:
  "extended (h(k \<mapsto> insert u (members h k))) P = extended h (insert (u, k) P)"
  by (rule ext) (auto simp: extended_def members_def image_iff split: option.splits)

lemma accumulate_successes:
  "fst (accumulate env rp interval (map Inr ps) h r) = None
   \<and> fst (snd (accumulate env rp interval (map Inr ps) h r)) = extended h (set ps)"
proof (induction ps arbitrary: h r)
  case Nil
  show ?case by (simp add: extended_empty)
next
  case (Cons p ps)
  obtain u k where p: "p = (u, k)" by (cases p)
  let ?h = "h(k \<mapsto> insert u (members h k))"
  have step: "accumulate env rp interval (map Inr (p # ps)) h r
      = accumulate env rp interval (map Inr ps) ?h (report_progress env rp r interval)"
    by (simp add: p add_uuid_eq)
  have ext: "extended h (set (p # ps)) = extended ?h (set ps)"
    by (simp add: p extended_insert)
  show ?case
    unfolding step ext by (rule Cons.IH)
qed

lemma accumulate_no_op:
  "snd (snd (accumulate env No_Op interval results h r)) = r"
  by (induction env No_Op interval results h r rule: accumulate.induct)
     (auto simp: report_progress_def add_uuid_eq)

lemma report_progress_calls:
  "progress_calls (report_progress env Bin_Utils r interval)
     = progress_calls r @ [(state r, interval)]"
  by (simp add: report_progress_def split: prod.splits)

lemma accumulate_bin_utils:
  "\<exists>sts. progress_calls (snd (snd (accumulate env Bin_Utils interval (map Inr ps) h r)))
          = progress_calls r @ map (\<lambda>st. (st, interval)) sts
        \<and> length sts = length ps"
proof (induction ps arbitrary: h r)
  case Nil
  show ?case by simp
next
  case (Cons p ps)
  obtain u k where p: "p = (u, k)" by (cases p)
  from Cons.IH [of "h(k \<mapsto> insert u (members h k))" "report_progress env Bin_Utils r interval"]
  obtain sts where sts: "progress_calls (snd (snd (accumulate env Bin_Utils interval (map Inr ps)
        (h(k \<mapsto> insert u (members h k))) (report_progress env Bin_Utils r interval))))
      = progress_calls (report_progress env Bin_Utils r interval) @ map (\<lambda>st. (st, interval)) sts"
    and len: "length sts = length ps" by blast
  show ?case
    by (rule exI [of _ "state r # sts"]) (simp add: p add_uuid_eq sts len report_progress_calls)
qed

lemma accumulate_monotone:
  "h k = Some S \<Longrightarrow>
   \<exists>S'. fst (snd (accumulate env rp interval results h r)) k = Some S' \<and> S \<subseteq> S'"
proof (induction env rp interval results h r arbitrary: S rule: accumulate.induct)
  case (1 env rp interval h r)
  then show ?case by simp
next
  case (2 env rp interval err results h r)
  then show ?case by simp
next
  case (3 env rp interval uuid hash_int results h r)
  let ?h = "h(hash_int \<mapsto> insert uuid (members h hash_int))"
  from "3.prems" obtain S1 where "?h k = Some S1" "S \<subseteq> S1"
    by (cases "k = hash_int") (auto simp: members_def)
  moreover have step: "accumulate env rp interval (Inr (uuid, hash_int) # results) h r
      = accumulate env rp interval results ?h (report_progress env rp r interval)"
    by (simp add: add_uuid_eq)
  ultimately show ?case
    unfolding step using "3.IH" [OF add_uuid_eq, of S1] by blast
qed

lemma delivered_pairs:
  assumes "delivers_each_once env (get_hash index functor) uuids use_mp"
      and "all_indexed index uuids"
  shows "\<exists>ps. parallel_map env (get_hash index functor) uuids use_mp = map Inr ps
            \<and> set ps = {(u, k). u \<in> set uuids \<and> hash_code index functor u = Some k}
            \<and> length ps = length uuids"
proof -
  let ?f = "get_hash index functor"
  let ?rs = "parallel_map env ?f uuids use_mp"
  have found: "\<And>u. u \<in> set uuids \<Longrightarrow> \<exists>k. ?f u = Inr (u, k) \<and> hash_code index functor u = Some k"
  proof -
    fix u assume "u \<in> set uuids"
    with assms(2) have "case index u of Inl err \<Rightarrow> False | Inr v \<Rightarrow> True"
      by (simp add: all_indexed_def list_all_iff)
    then obtain v where "index u = Inr v"
      by (cases "index u") auto
    then show "\<exists>k. ?f u = Inr (u, k) \<and> hash_code index functor u = Some k"
      by (simp add: hash_code_def get_hash_def)
  qed
  from assms(1) have ms: "mset ?rs = mset (map ?f uuids)"
    by (simp add: delivers_each_once_def)
  then have sets: "set ?rs = ?f ` set uuids"
    by (metis set_mset_mset set_map)
  from ms have len: "length ?rs = length uuids"
    by (metis size_mset length_map)
  have inr: "\<forall>x \<in> set ?rs. Inr (projr x) = x"
    using sets found by force
  have eq: "?rs = map Inr (map projr ?rs)"
    using inr by (simp add: map_idI)
  have "set (map projr ?rs) = {(u, k). u \<in> set uuids \<and> hash_code index functor u = Some k}"
    using sets found by (force simp: image_iff)
  with eq len show ?thesis
    by (metis length_map)
qed


lemma target_in_store:
  "valid_argument store hash2uuids \<Longrightarrow>
   target_address store hash2uuids < length (allocate store hash2uuids)"
  by (cases hash2uuids) (simp_all add: valid_argument_def target_address_def allocate_def)

lemma allocate_keeps:
  "b < length store \<Longrightarrow> allocate store hash2uuids ! b = store ! b"
  by (cases hash2uuids) (simp_all add: allocate_def nth_append)

lemma compute_hash_codes_fields:
  "accumulate env (if log_level env > DEBUG \<or> report_interval \<le> 0 then No_Op else Bin_Utils)
      report_interval (parallel_map env (get_hash index functor) uuids use_mp)
      (allocate store hash2uuids ! target_address store hash2uuids)
      \<lparr>state = \<lparr>s0 = 0, s1 = 0, s2 = 0, s3 = 0, s4 = 0, s5 = 0, s6 = 0\<rparr>,
       outside = world, progress_calls = []\<rparr> = (err, h, r) \<Longrightarrow>
   returned (compute_hash_codes env store world uuids index functor hash2uuids report_interval use_mp)
     = (case err of Some e \<Rightarrow> Inl e | None \<Rightarrow> Inr (target_address store hash2uuids))
   \<and> store_after (compute_hash_codes env store world uuids index functor hash2uuids
        report_interval use_mp)
     = (allocate store hash2uuids)[target_address store hash2uuids := h]
   \<and> reporting (compute_hash_codes env store world uuids index functor hash2uuids
        report_interval use_mp)
     = (case err of
          Some e \<Rightarrow> r
        | None \<Rightarrow> report_progress env
            (if log_level env > DEBUG \<or> report_interval \<le> 0 then No_Op else Bin_Utils)
            (r\<lparr>state := (state r)\<lparr>s1 := s1 (state r) - 1\<rparr>\<rparr>) 0)"
  by (cases err) (simp_all add: compute_hash_codes_def Let_def)

lemma compute_hash_codes_completes:
  assumes "delivers_each_once env (get_hash index functor) uuids use_mp"
      and "all_indexed index uuids"
  shows "returned (compute_hash_codes env store world uuids index functor hash2uuids
            report_interval use_mp) = Inr (target_address store hash2uuids)
       \<and> store_after (compute_hash_codes env store world uuids index functor hash2uuids
            report_interval use_mp)
         = (allocate store hash2uuids)[target_address store hash2uuids :=
              extended (allocate store hash2uuids ! target_address store hash2uuids)
                {(u, k). u \<in> set uuids \<and> hash_code index functor u = Some k}]"
proof -
  let ?rp = "if log_level env > DEBUG \<or> report_interval \<le> 0 then No_Op else Bin_Utils"
  let ?r0 = "\<lparr>state = \<lparr>s0 = 0, s1 = 0, s2 = 0, s3 = 0, s4 = 0, s5 = 0, s6 = 0\<rparr>,
       outside = world, progress_calls = []\<rparr>"
  let ?h0 = "allocate store hash2uuids ! target_address store hash2uuids"
  from delivered_pairs [OF assms] obtain ps
    where ps: "parallel_map env (get_hash index functor) uuids use_mp = map Inr ps"
      and set_ps: "set ps = {(u, k). u \<in> set uuids \<and> hash_code index functor u = Some k}"
    by blast
  obtain err h r where acc: "accumulate env ?rp report_interval (map Inr ps) ?h0 ?r0 = (err, h, r)"
    by (cases "accumulate env ?rp report_interval (map Inr ps) ?h0 ?r0")
  with accumulate_successes [of env ?rp report_interval ps ?h0 ?r0]
  have "err = None" "h = extended ?h0 (set ps)" by simp_all
  with compute_hash_codes_fields [of env report_interval index "functor" uuids use_mp store
      hash2uuids world err h r] acc ps set_ps
  show ?thesis by simp
qed

lemma example_delivers:
  "delivers_each_once (example_hash_env level) f uuids use_mp"
  by (simp add: delivers_each_once_def example_hash_env_def)

text \<open>
  C4. After a run in which every identifier has a descriptor and \<open>parallel_map\<close> delivers
  each result once, the call returns the target dictionary (the one passed, or the new
  one), and in it every processed identifier is a member of the set under its own hash
  code. A hash code that was no key before the run is a key afterwards exactly when some
  processed identifier has it, and its set then holds exactly the processed identifiers
  with that hash code: the set was created by this run. Hence, among the keys introduced
  by the run, a processed identifier is in the set of its own hash code and in no other.
\<close>

theorem every_identifier_under_its_hash_code:
  assumes "delivers_each_once env (get_hash index functor) uuids use_mp"
      and "all_indexed index uuids"
      and "valid_argument store hash2uuids"
  shows "(let run = compute_hash_codes env store world uuids index functor hash2uuids
                      report_interval use_mp;
              a = target_address store hash2uuids;
              initial = allocate store hash2uuids ! a;
              final = store_after run ! a
          in returned run = Inr a
           \<and> (\<forall>u \<in> set uuids. \<exists>k S. hash_code index functor u = Some k
                  \<and> final k = Some S \<and> u \<in> S)
           \<and> (\<forall>k. initial k = None \<longrightarrow>
                  final k = (if \<exists>u \<in> set uuids. hash_code index functor u = Some k
                             then Some {u \<in> set uuids. hash_code index functor u = Some k}
                             else None))
           \<and> (\<forall>u \<in> set uuids. \<forall>k. initial k = None \<longrightarrow>
                  (u \<in> members final k \<longleftrightarrow> hash_code index functor u = Some k)))"
proof -
  let ?run = "compute_hash_codes env store world uuids index functor hash2uuids
                report_interval use_mp"
  let ?a = "target_address store hash2uuids"
  let ?initial = "allocate store hash2uuids ! ?a"
  let ?P = "{(u, k). u \<in> set uuids \<and> hash_code index functor u = Some k}"
  from compute_hash_codes_completes [OF assms(1,2), of store world hash2uuids report_interval]
  have ret: "returned ?run = Inr ?a"
    and st: "store_after ?run = (allocate store hash2uuids)[?a := extended ?initial ?P]"
    by simp_all
  from st target_in_store [OF assms(3)]
  have final: "store_after ?run ! ?a = extended ?initial ?P" by simp
  have coded: "\<exists>k. hash_code index functor u = Some k" if "u \<in> set uuids" for u
  proof -
    from that assms(2) have "case index u of Inl err \<Rightarrow> False | Inr v \<Rightarrow> True"
      by (simp add: all_indexed_def list_all_iff)
    then show ?thesis
      by (cases "index u") (simp_all add: hash_code_def get_hash_def)
  qed
  have in_set: "\<exists>k S. hash_code index functor u = Some k
      \<and> extended ?initial ?P k = Some S \<and> u \<in> S" if "u \<in> set uuids" for u
  proof -
    from coded [OF that] obtain k where k: "hash_code index functor u = Some k" by blast
    with that have "k \<in> snd ` ?P" by force
    with k that show ?thesis by (simp add: extended_def)
  qed
  have new_keys: "extended ?initial ?P k
      = (if \<exists>u \<in> set uuids. hash_code index functor u = Some k
         then Some {u \<in> set uuids. hash_code index functor u = Some k} else None)"
    if "?initial k = None" for k
  proof -
    have "k \<in> snd ` ?P \<longleftrightarrow> (\<exists>u \<in> set uuids. hash_code index functor u = Some k)"
      by force
    with that show ?thesis by (simp add: extended_def members_def)
  qed
  have one_set: "u \<in> members (extended ?initial ?P) k \<longleftrightarrow> hash_code index functor u = Some k"
    if "u \<in> set uuids" "?initial k = None" for u k
    using that new_keys [OF that(2)] by (auto simp: members_def)
  show ?thesis
    unfolding Let_def final using ret in_set new_keys one_set by blast
qed

text \<open>
  Identifiers 1, 2, 3 with hash codes 1, 0, 1, added to a dictionary that has the key 1.
\<close>

theorem every_identifier_under_its_hash_code_witness:
  "delivers_each_once (example_hash_env 10) (get_hash example_index (\<lambda>v. v)) [1, 2, 3] True
   \<and> all_indexed example_index [1, 2, 3]
   \<and> valid_argument [[1 \<mapsto> {100::nat}]] (Some 0)
   \<and> returned (compute_hash_codes (example_hash_env 10) [[1 \<mapsto> {100}]] 0 [1, 2, 3]
        example_index (\<lambda>v. v) (Some 0) 1 True) = Inr 0
   \<and> (store_after (compute_hash_codes (example_hash_env 10) [[1 \<mapsto> {100}]] 0 [1, 2, 3]
        example_index (\<lambda>v. v) (Some 0) 1 True) ! 0) 1 = Some {1, 3, 100}
   \<and> (store_after (compute_hash_codes (example_hash_env 10) [[1 \<mapsto> {100}]] 0 [1, 2, 3]
        example_index (\<lambda>v. v) (Some 0) 1 True) ! 0) 0 = Some {2}"
proof -
  have hyps: "delivers_each_once (example_hash_env 10) (get_hash example_index (\<lambda>v. v)) [1, 2, 3] True"
    "all_indexed example_index [1, 2, 3]"
    "valid_argument [[1 \<mapsto> {100::nat}]] (Some 0)"
    by (simp_all add: example_delivers all_indexed_def example_index_def valid_argument_def)
  have codes: "hash_code example_index (\<lambda>v. v) 1 = Some 1"
    "hash_code example_index (\<lambda>v. v) 2 = Some 0"
    "hash_code example_index (\<lambda>v. v) 3 = Some 1"
    by (simp_all add: hash_code_def get_hash_def example_index_def bit_vector_to_int_large_def)
  from every_identifier_under_its_hash_code [OF hyps, of 0 1]
  show ?thesis
    using hyps
    by (simp add: Let_def target_address_def allocate_def codes members_def
          compute_hash_codes_def example_hash_env_def get_hash_def example_index_def
          bit_vector_to_int_large_def add_uuid_def report_progress_def DEBUG_def insert_commute)
qed


text \<open>
  C5. The order of completion does not matter. The loop run on two lists of
  (identifier, hash code) results that are permutations of each other ends with the same
  dictionary, whatever the reporting does. And two runs on the same store, identifiers,
  index and functor, with any two \<open>parallel_map\<close> that deliver each result once, any
  \<open>use_mp\<close>, any log level and any report interval, return the same address and leave
  the same store.
\<close>

theorem completion_order_irrelevant:
  "(mset ps = mset qs \<longrightarrow>
      fst (snd (accumulate env rp interval (map Inr ps) h r))
        = fst (snd (accumulate env' rp' interval' (map Inr qs) h r')))
 \<and> (delivers_each_once env (get_hash index functor) uuids use_mp
      \<and> delivers_each_once env' (get_hash index functor) uuids use_mp'
      \<and> all_indexed index uuids \<longrightarrow>
      returned (compute_hash_codes env store world uuids index functor hash2uuids
                  report_interval use_mp)
        = returned (compute_hash_codes env' store world' uuids index functor hash2uuids
                  report_interval' use_mp')
    \<and> store_after (compute_hash_codes env store world uuids index functor hash2uuids
                  report_interval use_mp)
        = store_after (compute_hash_codes env' store world' uuids index functor hash2uuids
                  report_interval' use_mp'))"
proof (intro conjI impI)
  assume "mset ps = mset qs"
  then have "set ps = set qs" by (rule mset_eq_setD)
  then show "fst (snd (accumulate env rp interval (map Inr ps) h r))
        = fst (snd (accumulate env' rp' interval' (map Inr qs) h r'))"
    using accumulate_successes [of env rp interval ps h r]
          accumulate_successes [of env' rp' interval' qs h r']
    by simp
next
  assume c: "delivers_each_once env (get_hash index functor) uuids use_mp
      \<and> delivers_each_once env' (get_hash index functor) uuids use_mp'
      \<and> all_indexed index uuids"
  then show "returned (compute_hash_codes env store world uuids index functor hash2uuids
                  report_interval use_mp)
        = returned (compute_hash_codes env' store world' uuids index functor hash2uuids
                  report_interval' use_mp')"
    using compute_hash_codes_completes [of env index "functor" uuids use_mp store world
            hash2uuids report_interval]
          compute_hash_codes_completes [of env' index "functor" uuids use_mp' store world'
            hash2uuids report_interval']
    by simp
  from c show "store_after (compute_hash_codes env store world uuids index functor hash2uuids
                  report_interval use_mp)
        = store_after (compute_hash_codes env' store world' uuids index functor hash2uuids
                  report_interval' use_mp')"
    using compute_hash_codes_completes [of env index "functor" uuids use_mp store world
            hash2uuids report_interval]
          compute_hash_codes_completes [of env' index "functor" uuids use_mp' store world'
            hash2uuids report_interval']
    by simp
qed

text \<open>
  A run that delivers in reverse order with multiprocessing and one that delivers in
  input order without it.
\<close>

theorem completion_order_irrelevant_witness:
  "mset [(1::nat, 1::int), (2, 0), (3, 1)] = mset [(3, 1), (1, 1), (2, 0)]
   \<and> fst (snd (accumulate (example_hash_env 10) Bin_Utils 1 (map Inr [(1, 1), (2, 0), (3, 1)])
        Map.empty \<lparr>state = \<lparr>s0 = 0, s1 = 0, s2 = 0, s3 = 0, s4 = 0, s5 = 0, s6 = 0\<rparr>,
                   outside = 0, progress_calls = []\<rparr>))
     = fst (snd (accumulate (example_hash_env 20) No_Op 0 (map Inr [(3, 1), (1, 1), (2, 0)])
        Map.empty \<lparr>state = \<lparr>s0 = 0, s1 = 0, s2 = 0, s3 = 0, s4 = 0, s5 = 0, s6 = 0\<rparr>,
                   outside = 7, progress_calls = []\<rparr>))
   \<and> delivers_each_once (example_hash_env 10) (get_hash example_index (\<lambda>v. v)) [1, 2, 3] True
   \<and> delivers_each_once (example_hash_env 20) (get_hash example_index (\<lambda>v. v)) [1, 2, 3] False
   \<and> all_indexed example_index [1, 2, 3]
   \<and> store_after (compute_hash_codes (example_hash_env 10) [] 0 [1, 2, 3]
        example_index (\<lambda>v. v) None 1 True)
     = store_after (compute_hash_codes (example_hash_env 20) [] 7 [1, 2, 3]
        example_index (\<lambda>v. v) None 0 False)"
proof -
  have perm: "mset [(1::nat, 1::int), (2, 0), (3, 1)] = mset [(3, 1), (1, 1), (2, 0)]"
    by (simp add: add_mset_commute)
  have indexed: "all_indexed example_index [1, 2, 3]"
    by (simp add: all_indexed_def example_index_def)
  from completion_order_irrelevant [of "[(1::nat, 1), (2, 0), (3, 1)]" "[(3, 1), (1, 1), (2, 0)]"
      "example_hash_env 10" Bin_Utils 1 Map.empty
      "\<lparr>state = \<lparr>s0 = 0, s1 = 0, s2 = 0, s3 = 0, s4 = 0, s5 = 0, s6 = 0\<rparr>,
        outside = 0, progress_calls = []\<rparr>"
      "example_hash_env 20" No_Op 0
      "\<lparr>state = \<lparr>s0 = 0, s1 = 0, s2 = 0, s3 = 0, s4 = 0, s5 = 0, s6 = 0\<rparr>,
        outside = 7, progress_calls = []\<rparr>"
      example_index "\<lambda>v. v" "[1, 2, 3]" True False "[]" 0 None 1 7 0]
  show ?thesis
    using perm indexed example_delivers by blast
qed


text \<open>
  C6. A run only extends the target dictionary, in place. If the call returns, it returns
  the address of the dictionary passed, and the store has no new object; for \<open>None\<close> it
  returns the address of a new object allocated behind the old ones. Every other object
  of the store is unchanged. Every key of the dictionary passed is still a key, and its
  set after the run includes its set before: no key and no identifier is removed, also
  when the run ends in an exception. When every identifier has a descriptor and
  \<open>parallel_map\<close> delivers each result once, the call does return.
\<close>

theorem extended_in_place:
  assumes "valid_argument store hash2uuids"
  shows "(let run = compute_hash_codes env store world uuids index functor hash2uuids
                      report_interval use_mp;
              a = target_address store hash2uuids
          in (\<forall>a'. returned run = Inr a' \<longrightarrow> a' = a)
           \<and> (\<forall>a0. hash2uuids = Some a0 \<longrightarrow>
                  a = a0 \<and> length (store_after run) = length store)
           \<and> (hash2uuids = None \<longrightarrow>
                  a = length store \<and> length (store_after run) = Suc (length store))
           \<and> (\<forall>b < length store. b \<noteq> a \<longrightarrow> store_after run ! b = store ! b)
           \<and> (\<forall>a0 k S. hash2uuids = Some a0 \<and> (store ! a0) k = Some S \<longrightarrow>
                  (\<exists>S'. (store_after run ! a0) k = Some S' \<and> S \<subseteq> S'))
           \<and> (delivers_each_once env (get_hash index functor) uuids use_mp
                \<and> all_indexed index uuids \<longrightarrow> returned run = Inr a))"
proof -
  let ?run = "compute_hash_codes env store world uuids index functor hash2uuids
                report_interval use_mp"
  let ?a = "target_address store hash2uuids"
  let ?rp = "if log_level env > DEBUG \<or> report_interval \<le> 0 then No_Op else Bin_Utils"
  let ?r0 = "\<lparr>state = \<lparr>s0 = 0, s1 = 0, s2 = 0, s3 = 0, s4 = 0, s5 = 0, s6 = 0\<rparr>,
       outside = world, progress_calls = []\<rparr>"
  let ?h0 = "allocate store hash2uuids ! ?a"
  let ?acc = "accumulate env ?rp report_interval
      (parallel_map env (get_hash index functor) uuids use_mp) ?h0 ?r0"
  obtain err h r where acc: "?acc = (err, h, r)" by (cases ?acc)
  from compute_hash_codes_fields [OF acc]
  have ret: "returned ?run = (case err of Some e \<Rightarrow> Inl e | None \<Rightarrow> Inr ?a)"
    and st: "store_after ?run = (allocate store hash2uuids)[?a := h]"
    by simp_all
  have same: "\<forall>a'. returned ?run = Inr a' \<longrightarrow> a' = ?a"
    using ret by (cases err) simp_all
  have supplied: "\<forall>a0. hash2uuids = Some a0 \<longrightarrow>
      ?a = a0 \<and> length (store_after ?run) = length store"
    using st by (cases hash2uuids) (simp_all add: target_address_def allocate_def)
  have fresh: "hash2uuids = None \<longrightarrow>
      ?a = length store \<and> length (store_after ?run) = Suc (length store)"
    using st by (cases hash2uuids) (simp_all add: target_address_def allocate_def)
  have others: "\<forall>b < length store. b \<noteq> ?a \<longrightarrow> store_after ?run ! b = store ! b"
    using st by (simp add: allocate_keeps)
  have grows: "\<forall>a0 k S. hash2uuids = Some a0 \<and> (store ! a0) k = Some S \<longrightarrow>
      (\<exists>S'. (store_after ?run ! a0) k = Some S' \<and> S \<subseteq> S')"
  proof (intro allI impI)
    fix a0 k S
    assume given: "hash2uuids = Some a0 \<and> (store ! a0) k = Some S"
    with assms have a0: "?a = a0" "a0 < length store" "?h0 k = Some S"
      by (simp_all add: target_address_def allocate_def valid_argument_def)
    from accumulate_monotone [where h = ?h0 and k = k and S = S and env = env and rp = ?rp
        and interval = report_interval and r = ?r0
        and results = "parallel_map env (get_hash index functor) uuids use_mp"] a0(3) acc
    obtain S' where "h k = Some S'" "S \<subseteq> S'" by auto
    moreover from st a0 given have "store_after ?run ! a0 = h"
      by (simp add: allocate_def)
    ultimately show "\<exists>S'. (store_after ?run ! a0) k = Some S' \<and> S \<subseteq> S'" by simp
  qed
  have completes: "delivers_each_once env (get_hash index functor) uuids use_mp
      \<and> all_indexed index uuids \<longrightarrow> returned ?run = Inr ?a"
    using compute_hash_codes_completes [of env index "functor" uuids use_mp store world
        hash2uuids report_interval] by simp
  show ?thesis
    unfolding Let_def using same supplied fresh others grows completes by blast
qed

text \<open>
  A store of two dictionaries: the second one passed, then none passed.
\<close>

theorem extended_in_place_witness:
  "valid_argument [[7 \<mapsto> {50::nat}], [1 \<mapsto> {100}]] (Some 1)
   \<and> returned (compute_hash_codes (example_hash_env 20) [[7 \<mapsto> {50}], [1 \<mapsto> {100}]] 0
        [1, 2, 3] example_index (\<lambda>v. v) (Some 1) 1 True) = Inr 1
   \<and> length (store_after (compute_hash_codes (example_hash_env 20)
        [[7 \<mapsto> {50}], [1 \<mapsto> {100}]] 0 [1, 2, 3] example_index (\<lambda>v. v) (Some 1) 1 True)) = 2
   \<and> store_after (compute_hash_codes (example_hash_env 20)
        [[7 \<mapsto> {50}], [1 \<mapsto> {100}]] 0 [1, 2, 3] example_index (\<lambda>v. v) (Some 1) 1 True) ! 0
       = [7 \<mapsto> {50}]
   \<and> (store_after (compute_hash_codes (example_hash_env 20)
        [[7 \<mapsto> {50}], [1 \<mapsto> {100}]] 0 [1, 2, 3] example_index (\<lambda>v. v) (Some 1) 1 True) ! 1) 1
       = Some {1, 3, 100}
   \<and> valid_argument [[7 \<mapsto> {50::nat}], [1 \<mapsto> {100}]] None
   \<and> returned (compute_hash_codes (example_hash_env 20) [[7 \<mapsto> {50}], [1 \<mapsto> {100}]] 0
        [1, 2, 3] example_index (\<lambda>v. v) None 1 True) = Inr 2
   \<and> length (store_after (compute_hash_codes (example_hash_env 20)
        [[7 \<mapsto> {50}], [1 \<mapsto> {100}]] 0 [1, 2, 3] example_index (\<lambda>v. v) None 1 True)) = 3"
proof -
  have valid: "valid_argument [[7 \<mapsto> {50::nat}], [1 \<mapsto> {100}]] (Some 1)"
    "valid_argument [[7 \<mapsto> {50::nat}], [1 \<mapsto> {100}]] None"
    by (simp_all add: valid_argument_def)
  have indexed: "all_indexed example_index [1, 2, 3]"
    by (simp add: all_indexed_def example_index_def)
  have inst: "target_address [[7 \<mapsto> {50::nat}], [1 \<mapsto> {100}]] (Some 1) = 1"
    "target_address [[7 \<mapsto> {50::nat}], [1 \<mapsto> {100}]] None = 2"
    by (simp_all add: target_address_def)
  from extended_in_place [OF valid(1), of "example_hash_env 20" 0 "[1, 2, 3]" example_index
        "\<lambda>v. v" 1 True]
       extended_in_place [OF valid(2), of "example_hash_env 20" 0 "[1, 2, 3]" example_index
        "\<lambda>v. v" 1 True]
  show ?thesis
    using valid indexed example_delivers
    by (simp add: Let_def inst compute_hash_codes_def target_address_def allocate_def
          example_hash_env_def get_hash_def example_index_def bit_vector_to_int_large_def
          add_uuid_def report_progress_def DEBUG_def insert_commute)
qed

text \<open>
  C7, as amended. When reporting is disabled (the log level is above \<open>DEBUG\<close> or
  \<open>report_interval\<close> is not positive), \<open>bin_utils.report_progress\<close> is never called, not at
  completion either. When reporting is enabled, a run that returns has made a last call
  of \<open>bin_utils.report_progress\<close> with interval \<open>0\<close>; and when every identifier has a
  descriptor and \<open>parallel_map\<close> delivers each result once, the run returns after one call
  per identifier with \<open>report_interval\<close> and that last call.
\<close>

theorem final_report_only_when_enabled:
  "(let run = compute_hash_codes env store world uuids index functor hash2uuids
                report_interval use_mp;
        reports = progress_calls (reporting run)
    in (DEBUG < log_level env \<or> report_interval \<le> 0 \<longrightarrow> reports = [])
     \<and> (log_level env \<le> DEBUG \<and> 0 < report_interval \<longrightarrow>
          (\<forall>a. returned run = Inr a \<longrightarrow> reports \<noteq> [] \<and> snd (last reports) = 0)
        \<and> (delivers_each_once env (get_hash index functor) uuids use_mp
             \<and> all_indexed index uuids \<longrightarrow>
               returned run = Inr (target_address store hash2uuids)
             \<and> length reports = Suc (length uuids)
             \<and> snd (last reports) = 0
             \<and> list_all (\<lambda>c. snd c = report_interval) (butlast reports))))"
proof -
  let ?run = "compute_hash_codes env store world uuids index functor hash2uuids
                report_interval use_mp"
  let ?a = "target_address store hash2uuids"
  let ?rp = "if log_level env > DEBUG \<or> report_interval \<le> 0 then No_Op else Bin_Utils"
  let ?r0 = "\<lparr>state = \<lparr>s0 = 0, s1 = 0, s2 = 0, s3 = 0, s4 = 0, s5 = 0, s6 = 0\<rparr>,
       outside = world, progress_calls = []\<rparr>"
  let ?h0 = "allocate store hash2uuids ! ?a"
  let ?results = "parallel_map env (get_hash index functor) uuids use_mp"
  let ?acc = "accumulate env ?rp report_interval ?results ?h0 ?r0"
  obtain err h r where acc: "?acc = (err, h, r)" by (cases ?acc)
  let ?r1 = "r\<lparr>state := (state r)\<lparr>s1 := s1 (state r) - 1\<rparr>\<rparr>"
  from compute_hash_codes_fields [OF acc]
  have ret: "returned ?run = (case err of Some e \<Rightarrow> Inl e | None \<Rightarrow> Inr ?a)"
    and rep: "reporting ?run = (case err of Some e \<Rightarrow> r | None \<Rightarrow> report_progress env ?rp ?r1 0)"
    by simp_all
  have disabled: "progress_calls (reporting ?run) = []"
    if off: "DEBUG < log_level env \<or> report_interval \<le> 0"
  proof -
    from off have rp: "?rp = No_Op" by simp
    from accumulate_no_op [of env report_interval ?results ?h0 ?r0] acc rp
    have "r = ?r0" by simp
    with rep rp show ?thesis
      by (cases err) (simp_all add: report_progress_def)
  qed
  have final: "progress_calls (reporting ?run) \<noteq> [] \<and> snd (last (progress_calls (reporting ?run))) = 0"
    if on: "log_level env \<le> DEBUG \<and> 0 < report_interval" and completed: "returned ?run = Inr a" for a
  proof -
    from on have rp: "?rp = Bin_Utils" by simp
    from completed ret have "err = None" by (cases err) simp_all
    with rep rp have "reporting ?run = report_progress env Bin_Utils ?r1 0" by simp
    then show ?thesis by (simp add: report_progress_calls)
  qed
  have counted: "returned ?run = Inr ?a
      \<and> length (progress_calls (reporting ?run)) = Suc (length uuids)
      \<and> snd (last (progress_calls (reporting ?run))) = 0
      \<and> list_all (\<lambda>c. snd c = report_interval) (butlast (progress_calls (reporting ?run)))"
    if on: "log_level env \<le> DEBUG \<and> 0 < report_interval"
      and c: "delivers_each_once env (get_hash index functor) uuids use_mp \<and> all_indexed index uuids"
  proof -
    from on have rp: "?rp = Bin_Utils" by simp
    from c delivered_pairs [of env index "functor" uuids use_mp] obtain ps
      where ps: "?results = map Inr ps" and len: "length ps = length uuids" by blast
    from accumulate_successes [of env ?rp report_interval ps ?h0 ?r0] acc ps
    have err: "err = None" by simp
    from accumulate_bin_utils [of env report_interval ps ?h0 ?r0] acc ps rp
    obtain sts where sts: "progress_calls r = map (\<lambda>st. (st, report_interval)) sts"
      and lsts: "length sts = length ps" by auto
    from rep rp err have "reporting ?run = report_progress env Bin_Utils ?r1 0" by simp
    then have "progress_calls (reporting ?run)
        = map (\<lambda>st. (st, report_interval)) sts @ [(state ?r1, 0)]"
      by (simp add: report_progress_calls sts)
    with ret err lsts len show ?thesis
      by (simp add: list_all_iff)
  qed
  show ?thesis
    unfolding Let_def using disabled final counted by blast
qed

text \<open>
  Two identifiers: log level 20 with interval 1, log level 10 with interval 0, log level
  10 with interval 1.
\<close>

theorem final_report_only_when_enabled_witness:
  "progress_calls (reporting (compute_hash_codes (example_hash_env 20) [] 0 [1, 2]
      example_index (\<lambda>v. v) None 1 False)) = []
   \<and> progress_calls (reporting (compute_hash_codes (example_hash_env 10) [] 0 [1, 2]
      example_index (\<lambda>v. v) None 0 False)) = []
   \<and> delivers_each_once (example_hash_env 10) (get_hash example_index (\<lambda>v. v)) [1, 2] False
   \<and> all_indexed example_index [1, 2]
   \<and> returned (compute_hash_codes (example_hash_env 10) [] 0 [1, 2]
      example_index (\<lambda>v. v) None 1 False) = Inr 0
   \<and> length (progress_calls (reporting (compute_hash_codes (example_hash_env 10) [] 0 [1, 2]
      example_index (\<lambda>v. v) None 1 False))) = 3
   \<and> snd (last (progress_calls (reporting (compute_hash_codes (example_hash_env 10) [] 0 [1, 2]
      example_index (\<lambda>v. v) None 1 False)))) = 0"
proof -
  have levels: "log_level (example_hash_env 20) = 20" "log_level (example_hash_env 10) = 10"
    by (simp_all add: example_hash_env_def)
  have indexed: "all_indexed example_index [1, 2]"
    by (simp add: all_indexed_def example_index_def)
  from final_report_only_when_enabled [of "example_hash_env 20" "[]" 0 "[1, 2]" example_index
         "\<lambda>v. v" None 1 False]
       final_report_only_when_enabled [of "example_hash_env 10" "[]" 0 "[1, 2]" example_index
         "\<lambda>v. v" None 0 False]
       final_report_only_when_enabled [of "example_hash_env 10" "[]" 0 "[1, 2]" example_index
         "\<lambda>v. v" None 1 False]
  show ?thesis
    using indexed example_delivers [of 10 "get_hash example_index (\<lambda>v. v)" "[1, 2]" False]
    by (simp add: Let_def levels DEBUG_def target_address_def)
qed

text \<open>
  C7 as stated fails: at log level 20 (\<open>INFO\<close>) with the default interval the run returns
  and no progress report has been made, the final one included.
\<close>

theorem final_report_counterexample:
  "returned (compute_hash_codes (example_hash_env 20) [] 0 [1, 2]
      example_index (\<lambda>v. v) None 1 False) = Inr 0
   \<and> progress_calls (reporting (compute_hash_codes (example_hash_env 20) [] 0 [1, 2]
      example_index (\<lambda>v. v) None 1 False)) = []"
  by (simp add: compute_hash_codes_def Let_def target_address_def allocate_def
        example_hash_env_def get_hash_def example_index_def bit_vector_to_int_large_def
        add_uuid_def report_progress_def DEBUG_def)

end
